theory Spec2Isabelle
  imports Main
begin

section \<open>The driver: progs/getpcaps.c\<close>

text \<open>
  The program walks its arguments, converts each to a pid with \<^verbatim>\<open>atoi\<close>, asks the
  kernel for that process's capabilities through \<^verbatim>\<open>capgetp\<close> into the one buffer
  \<^verbatim>\<open>cap_d\<close> obtained from \<^verbatim>\<open>cap_init\<close> before the loop, and prints either the
  text form of the buffer or a failure line.  The library functions it calls are not part
  of the file; they are the fields of the record \<open>libcap\<close> below, and every theorem
  about the driver holds for any choice of them.
\<close>

type_synonym errno = nat

text \<open>
  \<^item> \<open>cap_init\<close>: \<open>Inr c\<close> is a pointer to a fresh buffer with contents \<open>c\<close>,
    \<open>Inl e\<close> is \<^verbatim>\<open>NULL\<close> with \<^verbatim>\<open>errno\<close> left at \<open>e\<close>;
  \<^item> \<open>capgetp pid c\<close>: called with the buffer holding \<open>c\<close>; gives the returned
    \<^verbatim>\<open>int\<close>, the \<^verbatim>\<open>errno\<close> it leaves and the contents it leaves in the buffer;
  \<^item> \<open>cap_to_text\<close>: the text rendered from the buffer (the program does not test
    the result against \<^verbatim>\<open>NULL\<close>);
  \<^item> \<open>strerror\<close>: the message of an error number.
\<close>

record 'cap libcap =
  cap_init :: "errno + 'cap"
  capgetp :: "int \<Rightarrow> 'cap \<Rightarrow> int \<times> errno \<times> 'cap"
  cap_to_text :: "'cap \<Rightarrow> string"
  strerror :: "errno \<Rightarrow> string"

text \<open>
  One call of \<^verbatim>\<open>capgetp\<close> as the program made it: the argument token, the pid passed,
  the buffer contents handed in, the value returned and the contents left behind.
\<close>

record 'cap call =
  token :: string
  pid_arg :: int
  buf_in :: 'cap
  ret :: int
  buf_out :: 'cap

text \<open>
  The state the program runs in: what has been written to each of the two streams (one
  entry per \<^verbatim>\<open>fprintf\<close>), the variable \<^verbatim>\<open>cap_d\<close> (\<open>None\<close> is \<^verbatim>\<open>NULL\<close>,
  \<open>Some c\<close> a buffer holding \<open>c\<close>), the global \<^verbatim>\<open>errno\<close>, and the calls made to
  \<^verbatim>\<open>capgetp\<close> so far, in order.
\<close>

record 'cap world =
  stdout :: "string list"
  stderr :: "string list"
  cap_d :: "'cap option"
  errno :: errno
  queried :: "'cap call list"

definition start :: "'cap world" where
  "start = \<lparr>stdout = [], stderr = [], cap_d = None, errno = 0, queried = []\<rparr>"

subsection \<open>The C library: \<^verbatim>\<open>atoi\<close> and \<^verbatim>\<open>%d\<close>\<close>

definition isspace :: "char \<Rightarrow> bool" where
  "isspace c = (c \<in> set [CHR '' '', CHR 0x09, CHR 0x0A, CHR 0x0B, CHR 0x0C, CHR 0x0D])"

definition isdigit :: "char \<Rightarrow> bool" where
  "isdigit c = (c \<in> set ''0123456789'')"

definition digit_val :: "char \<Rightarrow> int" where
  "digit_val c = int (of_char c) - 48"

fun digits :: "int \<Rightarrow> string \<Rightarrow> int" where
  "digits acc [] = acc"
| "digits acc (c # cs) = (if isdigit c then digits (10 * acc + digit_val c) cs else acc)"

text \<open>
  \<^verbatim>\<open>atoi\<close>: leading white space is skipped, one sign is read, then the longest run of
  decimal digits; no digits give 0.  C leaves the result undefined when the value does not
  fit an \<^verbatim>\<open>int\<close>; the model returns the mathematical value there.
\<close>

definition atoi :: "string \<Rightarrow> int" where
  "atoi s =
     (case dropWhile isspace s of
        [] \<Rightarrow> 0
      | c # cs \<Rightarrow>
          if c = CHR ''-'' then - digits 0 cs
          else if c = CHR ''+'' then digits 0 cs
          else digits 0 (c # cs))"

definition digit_char :: "nat \<Rightarrow> char" where
  "digit_char d = ''0123456789'' ! d"

fun dec :: "nat \<Rightarrow> string" where
  "dec n = (if n < 10 then [digit_char n] else dec (n div 10) @ [digit_char (n mod 10)])"

declare dec.simps [simp del]

text \<open>The conversion \<^verbatim>\<open>%d\<close> of \<^verbatim>\<open>fprintf\<close>.\<close>

definition fmt_d :: "int \<Rightarrow> string" where
  "fmt_d i = (if i < 0 then CHR ''-'' # dec (nat (- i)) else dec (nat i))"

subsection \<open>\<^verbatim>\<open>usage\<close> and \<^verbatim>\<open>main\<close>\<close>

definition usage_text :: string where
  "usage_text =
     ''usage: getcaps <pid> [<pid> ...]\<newline>\<newline>'' @
     ''  This program displays the capabilities on the queried process(es).\<newline>'' @
     ''  The capabilities are displayed in the cap_from_text(3) format.\<newline>\<newline>'' @
     ''[Copyright (c) 1997-8 Andrew G. Morgan  <morgan@kernel.org>]\<newline>''"

text \<open>
  A run ends with \<open>(Some n, w)\<close> when \<^verbatim>\<open>exit(n)\<close> was called in state \<open>w\<close>, and
  with \<open>(None, w)\<close> when control goes on.
\<close>

definition fprintf_stderr :: "string \<Rightarrow> 'cap world \<Rightarrow> 'cap world" where
  "fprintf_stderr s w = w\<lparr>stderr := stderr w @ [s]\<rparr>"

definition usage :: "'cap world \<Rightarrow> int option \<times> 'cap world" where
  "usage w = (Some 1, fprintf_stderr usage_text w)"

definition blank_failed_msg :: "'cap libcap \<Rightarrow> errno \<Rightarrow> string" where
  "blank_failed_msg L e =
     ''Failed to make a blank capability set\<newline> ('' @ strerror L e @ '')\<newline>''"

definition get_failed_msg :: "'cap libcap \<Rightarrow> int \<Rightarrow> errno \<Rightarrow> string" where
  "get_failed_msg L pid e =
     ''Failed to get cap's for proccess '' @ fmt_d pid @ '': ('' @ strerror L e @ '')\<newline>''"

definition caps_msg :: "string \<Rightarrow> string \<Rightarrow> string" where
  "caps_msg arg result = ''Capabilities for `'' @ arg @ ''': '' @ result @ ''\<newline>''"

text \<open>
  The \<^verbatim>\<open>for\<close> loop over \<^verbatim>\<open>argv[1]\<close> .. \<^verbatim>\<open>argv[argc-1]\<close>.  Each round tests
  \<^verbatim>\<open>cap_d\<close> against \<^verbatim>\<open>NULL\<close> first; \<^verbatim>\<open>continue\<close> and the end of the body both go
  to the next argument.
\<close>

fun loop :: "'cap libcap \<Rightarrow> string list \<Rightarrow> 'cap world \<Rightarrow> int option \<times> 'cap world" where
  "loop L [] w = (None, w)"
| "loop L (arg # rest) w =
     (case cap_d w of
        None \<Rightarrow> (Some 1, fprintf_stderr (blank_failed_msg L (errno w)) w)
      | Some c \<Rightarrow>
          (let pid = atoi arg;
               (r, e, c') = capgetp L pid c;
               w' = w\<lparr>cap_d := Some c', errno := e,
                      queried := queried w @
                        [\<lparr>token = arg, pid_arg = pid, buf_in = c, ret = r, buf_out = c'\<rparr>]\<rparr>
           in if r \<noteq> 0
              then loop L rest (fprintf_stderr (get_failed_msg L pid (errno w')) w')
              else loop L rest (fprintf_stderr (caps_msg arg (cap_to_text L c')) w')))"

text \<open>
  \<open>argv\<close> is the whole argument vector, the program's name first, so \<^verbatim>\<open>argc\<close> is its
  length.  The result is the exit status and the final state.
\<close>

definition main :: "'cap libcap \<Rightarrow> string list \<Rightarrow> int \<times> 'cap world" where
  "main L argv =
     (case (if length argv < 2 then usage start
            else loop L (tl argv)
                   (case cap_init L of
                      Inl e \<Rightarrow> start\<lparr>cap_d := None, errno := e\<rparr>
                    | Inr c \<Rightarrow> start\<lparr>cap_d := Some c\<rparr>)) of
        (Some n, w) \<Rightarrow> (n, w)
      | (None, w) \<Rightarrow> (0, w))"

subsection \<open>Notions used to state the driver's properties\<close>

text \<open>
  \<open>threads c qs c'\<close>: the calls \<open>qs\<close> pass one buffer along.  The first call is
  handed contents \<open>c\<close>, each later call is handed what the call before it left, and
  the last call leaves \<open>c'\<close>.
\<close>

fun threads :: "'cap \<Rightarrow> 'cap call list \<Rightarrow> 'cap \<Rightarrow> bool" where
  "threads c [] c' = (c = c')"
| "threads c (q # qs) c' = (buf_in q = c \<and> threads (buf_out q) qs c')"

text \<open>
  The line the loop body prints for one argument when the buffer it hands to
  \<^verbatim>\<open>capgetp\<close> holds \<open>c\<close>.
\<close>

definition report :: "'cap libcap \<Rightarrow> 'cap \<Rightarrow> string \<Rightarrow> string" where
  "report L c arg =
     (let pid = atoi arg; (r, e, c') = capgetp L pid c
      in if r \<noteq> 0 then get_failed_msg L pid e else caps_msg arg (cap_to_text L c'))"

text \<open>
  \<open>wholesale L\<close>: what a query answers does not depend on what the buffer held before.
  The returned value is the same for any two buffers; when it is 0 so are the contents
  left behind, and otherwise so is \<^verbatim>\<open>errno\<close>.
\<close>

definition wholesale :: "'cap libcap \<Rightarrow> bool" where
  "wholesale L =
     (\<forall>pid c d. case (capgetp L pid c, capgetp L pid d) of
        ((r, e, c'), (s, f, d')) \<Rightarrow> r = s \<and> (if r = 0 then c' = d' else e = f))"

text \<open>
  A library to run the driver on: the buffer contents are written as the text they render
  to, processes 1 and 3 exist, and every other pid is answered with -1 and
  \<^verbatim>\<open>ESRCH\<close> (3), the buffer left as it was.
\<close>

definition sample_libcap :: "string libcap" where
  "sample_libcap =
     \<lparr>cap_init = Inr ''='',
      capgetp = (\<lambda>pid c. if pid = 1 then (0, 0, ''= cap_chown+ep'')
                         else if pid = 3 then (0, 0, ''= cap_kill+i'')
                         else (- 1, 3, c)),
      cap_to_text = (\<lambda>c. c),
      strerror = (\<lambda>e. if e = 3 then ''No such process'' else ''Unknown error'')\<rparr>"

section \<open>The capability set and its text form\<close>

text \<open>
  The driver only calls the library: the capability set behind \<^verbatim>\<open>cap_t\<close>, the table
  of capability names, and the text codec behind \<^verbatim>\<open>cap_to_text\<close> and the
  \<^verbatim>\<open>cap_from_text\<close> format are declared in \<^verbatim>\<open>sys/capability.h\<close> and defined in
  library files that are not among the sources.  The definitions of this section are
  therefore taken from the specification (sections 3, 4.1, 4.2, 4.3, 6 and 7), and each
  says which sentences it follows.
\<close>

text \<open>
  Modelled from the spec: the error kinds of the library, which no source file declares;
  the taxonomy of section 7.
\<close>

datatype error =
    IndexOutOfRange
  | UnknownCapabilityIndex
  | UnknownCapabilityName
  | MalformedCapabilityText
  | ProcessNotFound
  | PermissionDenied
  | QueryFailed errno

subsection \<open>CapabilitySet\<close>

text \<open>
  Modelled from the spec: the capability set type of the library (the structure behind
  \<^verbatim>\<open>cap_t\<close>, not declared in the sources).  Section 3: three sets of capability
  indices, effective, permitted and inheritable.  The bound \<open>MAX_CAP\<close> is configured
  from outside; it is the argument \<open>M\<close> of every operation that needs it.
\<close>

record CapabilitySet =
  effective :: "nat set"
  permitted :: "nat set"
  inheritable :: "nat set"

text \<open>
  Modelled from the spec: the selector of a flag vector, which the sources do not declare;
  \<open>which: {effective|permitted|inheritable}\<close> of section 4.1.
\<close>

datatype flag = Effective | Permitted | Inheritable

text \<open>
  Modelled from the spec: reading the vector a selector names (section 4.1); the accessor
  is library code missing from the sources.
\<close>

fun vec :: "flag \<Rightarrow> CapabilitySet \<Rightarrow> nat set" where
  "vec Effective s = effective s"
| "vec Permitted s = permitted s"
| "vec Inheritable s = inheritable s"

text \<open>
  Modelled from the spec: changing the vector a selector names and no other (section 3:
  the three vectors are independent); library code missing from the sources.
\<close>

fun vec_update :: "flag \<Rightarrow> (nat set \<Rightarrow> nat set) \<Rightarrow> CapabilitySet \<Rightarrow> CapabilitySet" where
  "vec_update Effective f s = s\<lparr>effective := f (effective s)\<rparr>"
| "vec_update Permitted f s = s\<lparr>permitted := f (permitted s)\<rparr>"
| "vec_update Inheritable f s = s\<lparr>inheritable := f (inheritable s)\<rparr>"

text \<open>
  Modelled from the spec: the constructor of a blank set (what \<^verbatim>\<open>cap_init\<close> returns;
  its definition is missing from the sources).  Section 4.1: \<open>empty()\<close> returns the
  all-clear set.
\<close>

definition empty_caps :: CapabilitySet where
  "empty_caps = \<lparr>effective = {}, permitted = {}, inheritable = {}\<rparr>"

text \<open>
  Modelled from the spec: the library's test of one bit, missing from the sources.
  Section 4.1: \<open>isSet(which, idx)\<close> fails with \<open>IndexOutOfRange\<close> if
  \<open>idx >= MAX_CAP\<close>.
\<close>

definition isSet :: "nat \<Rightarrow> CapabilitySet \<Rightarrow> flag \<Rightarrow> nat \<Rightarrow> error + bool" where
  "isSet M s which idx = (if idx \<ge> M then Inl IndexOutOfRange else Inr (idx \<in> vec which s))"

text \<open>
  Modelled from the spec: the library's raising of one bit, missing from the sources.
  Section 4.1: \<open>set(which, idx)\<close> mutates one bit, with the range contract of
  \<open>isSet\<close>.  It mutates the set, so it takes the set and gives it back next to its
  result.
\<close>

definition set_cap :: "nat \<Rightarrow> flag \<Rightarrow> nat \<Rightarrow> CapabilitySet \<Rightarrow> (error + unit) \<times> CapabilitySet" where
  "set_cap M which idx s =
     (if idx \<ge> M then (Inl IndexOutOfRange, s)
      else (Inr (), vec_update which (insert idx) s))"

text \<open>
  Modelled from the spec: the library's lowering of one bit, missing from the sources.
  Section 4.1: \<open>clear(which, idx)\<close> mutates one bit, with the range contract of
  \<open>isSet\<close>.
\<close>

definition clear :: "nat \<Rightarrow> flag \<Rightarrow> nat \<Rightarrow> CapabilitySet \<Rightarrow> (error + unit) \<times> CapabilitySet" where
  "clear M which idx s =
     (if idx \<ge> M then (Inl IndexOutOfRange, s)
      else (Inr (), vec_update which (\<lambda>A. A - {idx}) s))"

text \<open>
  Modelled from the spec: the invariant of the capability set type, which is missing from
  the sources.  Section 3: no index outside \<open>[0, MAX_CAP)\<close> is set in any of the three
  vectors.
\<close>

definition in_range :: "nat \<Rightarrow> CapabilitySet \<Rightarrow> bool" where
  "in_range M s = (effective s \<union> permitted s \<union> inheritable s \<subseteq> {..<M})"

subsection \<open>CapabilityNameTable\<close>

text \<open>
  Modelled from the spec: the library's table of capability names, missing from the
  sources.  Section 3: an ordered sequence of (index, name) pairs.  Section 4.2: the table
  may be sparse relative to \<open>[0, MAX_CAP)\<close>.
\<close>

type_synonym CapabilityNameTable = "(nat \<times> string) list"

text \<open>
  Modelled from the spec: the lookup of a name by index, missing from the sources.
  Section 4.2: \<open>nameOf(idx)\<close> fails with \<open>UnknownCapabilityIndex\<close> if no entry exists.
\<close>

definition nameOf :: "CapabilityNameTable \<Rightarrow> nat \<Rightarrow> error + string" where
  "nameOf T idx = (case map_of T idx of None \<Rightarrow> Inl UnknownCapabilityIndex | Some n \<Rightarrow> Inr n)"

text \<open>
  Modelled from the spec: the lookup of an index by name, missing from the sources.
  Section 4.2: \<open>indexOf(name)\<close> fails with \<open>UnknownCapabilityName\<close> if the token is
  not recognized; the comparison is exact, so it is case-sensitive.
\<close>

definition indexOf :: "CapabilityNameTable \<Rightarrow> string \<Rightarrow> error + nat" where
  "indexOf T name =
     (case map_of (map (\<lambda>(i, n). (n, i)) T) name of
        None \<Rightarrow> Inl UnknownCapabilityName
      | Some i \<Rightarrow> Inr i)"

text \<open>
  Modelled from the spec: the names of the missing table are tokens (section 3).  The
  text format of section 6 separates groups by a space, names by a comma and names from
  flags by \<open>=\<close>, so a token is not empty and holds none of the three.
\<close>

definition is_token :: "string \<Rightarrow> bool" where
  "is_token n = (n \<noteq> [] \<and> list_all (\<lambda>c. c \<noteq> CHR '' '' \<and> c \<noteq> CHR '','' \<and> c \<noteq> CHR ''='') n)"

text \<open>
  Modelled from the spec: the invariants of the missing table.  Section 3: index unique,
  name unique; every index is a CapabilityIndex, that is below \<open>MAX_CAP\<close>; every name
  is a token.
\<close>

definition valid_table :: "nat \<Rightarrow> CapabilityNameTable \<Rightarrow> bool" where
  "valid_table M T =
     (distinct (map fst T) \<and> distinct (map snd T) \<and> list_all (\<lambda>(i, n). i < M \<and> is_token n) T)"

subsection \<open>TextCodec: encode\<close>

text \<open>
  Modelled from the spec: joining pieces with one separator between neighbours, as the
  missing \<^verbatim>\<open>cap_to_text\<close> does with names (a comma, section 4.3 step 3) and with
  groups (a single space, step 4).
\<close>

fun join_with :: "char \<Rightarrow> string list \<Rightarrow> string" where
  "join_with c [] = []"
| "join_with c [w] = w"
| "join_with c (w # ws) = w @ c # join_with c ws"

text \<open>
  Modelled from the spec: the order of the flags in the output of the missing
  \<^verbatim>\<open>cap_to_text\<close>.  Section 4.3 step 3: the fixed order \<open>e\<close>, \<open>i\<close>,
  \<open>p\<close> (effective, inheritable, permitted).
\<close>

definition flag_order :: "flag list" where
  "flag_order = [Effective, Inheritable, Permitted]"

text \<open>
  Modelled from the spec: the single-letter codes of the flags in the output of the
  missing \<^verbatim>\<open>cap_to_text\<close> (section 4.3 step 3).
\<close>

fun flag_letter :: "flag \<Rightarrow> char" where
  "flag_letter Effective = CHR ''e''"
| "flag_letter Inheritable = CHR ''i''"
| "flag_letter Permitted = CHR ''p''"

text \<open>
  Modelled from the spec: the flag signature that the missing \<^verbatim>\<open>cap_to_text\<close> groups
  by (section 4.3 step 1), the vectors a capability is set in, listed in the order of the
  letters.
\<close>

definition signature :: "CapabilitySet \<Rightarrow> nat \<Rightarrow> flag list" where
  "signature s idx = filter (\<lambda>which. idx \<in> vec which s) flag_order"

text \<open>
  Modelled from the spec: the capabilities that the missing \<^verbatim>\<open>cap_to_text\<close> prints,
  in ascending index order, each with its name.  A capability with no flag set in any
  vector is omitted (section 4.3 step 3), and a bit without a name in the table is skipped
  silently (section 4.2).
\<close>

definition entries :: "nat \<Rightarrow> CapabilityNameTable \<Rightarrow> CapabilitySet \<Rightarrow> (nat \<times> string) list" where
  "entries M T s =
     List.map_filter
       (\<lambda>idx. if signature s idx = [] then None else map_option (Pair idx) (map_of T idx))
       [0..<M]"

text \<open>
  Modelled from the spec: the partition step of the missing \<^verbatim>\<open>cap_to_text\<close>.
  Section 4.3 step 1: the capabilities that share a signature are coalesced into one
  group.  A group starts at the first element that has its key and takes every later one
  with the same key, so the members keep their order (step 2) and the groups come in
  the order of their first members (the example of section 8: the lower index first).
\<close>

fun partition_by :: "('a \<Rightarrow> 'k) \<Rightarrow> 'a list \<Rightarrow> ('k \<times> 'a list) list" where
  "partition_by f [] = []"
| "partition_by f (x # xs) =
     (f x, x # filter (\<lambda>y. f y = f x) xs) # partition_by f (filter (\<lambda>y. f y \<noteq> f x) xs)"

text \<open>
  Modelled from the spec: the groups of a capability set in the missing
  \<^verbatim>\<open>cap_to_text\<close>, the printed capabilities partitioned by signature (section 4.3
  steps 1 and 2).
\<close>

definition groups ::
  "nat \<Rightarrow> CapabilityNameTable \<Rightarrow> CapabilitySet \<Rightarrow> (flag list \<times> (nat \<times> string) list) list" where
  "groups M T s = partition_by (\<lambda>(idx, n). signature s idx) (entries M T s)"

text \<open>
  Modelled from the spec: the text of one group in the missing \<^verbatim>\<open>cap_to_text\<close>.
  Section 4.3 step 3: \<open>name1,name2,...=flags\<close>.
\<close>

definition render_group :: "flag list \<times> (nat \<times> string) list \<Rightarrow> string" where
  "render_group g =
     join_with (CHR '','') (map snd (snd g)) @ CHR ''='' # map flag_letter (fst g)"

text \<open>
  Modelled from the spec: \<^verbatim>\<open>cap_to_text\<close>, which the driver calls and whose definition
  is missing from the sources; \<open>encode\<close> of section 4.3.  The groups are joined with
  a single space (step 4); when there is no group the output is the token \<open>=\<close>
  (step 5).
\<close>

definition encode :: "nat \<Rightarrow> CapabilityNameTable \<Rightarrow> CapabilitySet \<Rightarrow> string" where
  "encode M T s =
     (if groups M T s = [] then ''=''
      else join_with (CHR '' '') (map render_group (groups M T s)))"

subsection \<open>TextCodec: decode\<close>

text \<open>
  Modelled from the spec: cutting a text at a separator, as the missing decoder does at
  the separators of section 6.  The text is read from left to right and \<open>w\<close> is the
  piece being read; the result is never the empty list.
\<close>

fun split_acc :: "char \<Rightarrow> string \<Rightarrow> string \<Rightarrow> string list" where
  "split_acc c w [] = [w]"
| "split_acc c w (x # xs) =
     (if x = c then w # split_acc c [] xs else split_acc c (w @ [x]) xs)"

text \<open>
  Modelled from the spec: the pieces of a text between the occurrences of a separator
  (section 6), for the missing decoder.
\<close>

definition split_on :: "char \<Rightarrow> string \<Rightarrow> string list" where
  "split_on c xs = split_acc c [] xs"

text \<open>
  Modelled from the spec: reading the flag suffix in the missing decoder.  Section 6: the
  flags are a subset of \<open>e\<close>, \<open>i\<close>, \<open>p\<close> in that fixed order with no
  duplicates; encode never writes an empty suffix, and section 4.3 has decode fail with
  \<open>MalformedCapabilityText\<close> on unknown flag letters.
\<close>

definition parse_flags :: "string \<Rightarrow> error + flag list" where
  "parse_flags fs =
     (let ws = filter (\<lambda>which. flag_letter which \<in> set fs) flag_order
      in if fs \<noteq> [] \<and> map flag_letter ws = fs then Inr ws else Inl MalformedCapabilityText)"

text \<open>
  Modelled from the spec: the missing decoder raises one capability in each vector of a
  group's flags, through \<open>set\<close> of section 4.1 and with its range contract.
\<close>

fun set_flags :: "nat \<Rightarrow> nat \<Rightarrow> flag list \<Rightarrow> CapabilitySet \<Rightarrow> error + CapabilitySet" where
  "set_flags M idx [] s = Inr s"
| "set_flags M idx (which # ws) s =
     (case set_cap M which idx s of
        (Inl e, s') \<Rightarrow> Inl e
      | (Inr u, s') \<Rightarrow> set_flags M idx ws s')"

text \<open>
  Modelled from the spec: the missing decoder looks every name of a group up with
  \<open>indexOf\<close> and raises it.  A name the table does not know fails with the error of
  \<open>indexOf\<close> (section 8: \<open>decode("bogus=ep")\<close> fails with
  \<open>UnknownCapabilityName\<close>).
\<close>

fun set_names ::
  "nat \<Rightarrow> CapabilityNameTable \<Rightarrow> flag list \<Rightarrow> string list \<Rightarrow> CapabilitySet \<Rightarrow> error + CapabilitySet" where
  "set_names M T ws [] s = Inr s"
| "set_names M T ws (n # ns) s =
     (case indexOf T n of
        Inl e \<Rightarrow> Inl e
      | Inr idx \<Rightarrow>
          (case set_flags M idx ws s of
             Inl e \<Rightarrow> Inl e
           | Inr s' \<Rightarrow> set_names M T ws ns s'))"

text \<open>
  Modelled from the spec: reading one group in the missing decoder.  Section 6: a group
  is \<open>name(,name)*=flags\<close>; a group that does not hold exactly one \<open>=\<close>, an empty
  segment among them, is malformed (section 4.3).
\<close>

definition decode_group ::
  "nat \<Rightarrow> CapabilityNameTable \<Rightarrow> string \<Rightarrow> CapabilitySet \<Rightarrow> error + CapabilitySet" where
  "decode_group M T g s =
     (case split_on (CHR ''='') g of
        [ns, fs] \<Rightarrow>
          (case parse_flags fs of
             Inl e \<Rightarrow> Inl e
           | Inr ws \<Rightarrow> set_names M T ws (split_on (CHR '','') ns) s)
      | _ \<Rightarrow> Inl MalformedCapabilityText)"

text \<open>
  Modelled from the spec: the missing decoder reads the groups from left to right into
  one set and stops at the first failure (section 7: failures are returned as typed
  results from the failing operation).
\<close>

fun decode_groups ::
  "nat \<Rightarrow> CapabilityNameTable \<Rightarrow> string list \<Rightarrow> CapabilitySet \<Rightarrow> error + CapabilitySet" where
  "decode_groups M T [] s = Inr s"
| "decode_groups M T (g # gs) s =
     (case decode_group M T g s of
        Inl e \<Rightarrow> Inl e
      | Inr s' \<Rightarrow> decode_groups M T gs s')"

text \<open>
  Modelled from the spec: the decoder of the \<^verbatim>\<open>cap_from_text\<close> format, missing from
  the sources; \<open>decode\<close> of section 4.3, the inverse of encode.  Section 6: the text
  is the literal \<open>=\<close> or groups separated by single spaces; they are read into a set
  that starts empty.
\<close>

definition decode :: "nat \<Rightarrow> CapabilityNameTable \<Rightarrow> string \<Rightarrow> error + CapabilitySet" where
  "decode M T text =
     (if text = ''='' then Inr empty_caps
      else decode_groups M T (split_on (CHR '' '') text) empty_caps)"

text \<open>
  A table to run the codec on, with \<open>MAX_CAP\<close> taken as 4: the bits 0, 1 and 3 are
  named and bit 2 is not.
\<close>

definition sample_table :: CapabilityNameTable where
  "sample_table = [(0, ''chown''), (1, ''dac_override''), (3, ''fowner'')]"

subsection \<open>Notions used to state the codec's properties\<close>

text \<open>The text after the first \<open>=\<close> of a group.\<close>

definition flag_suffix :: "string \<Rightarrow> string" where
  "flag_suffix g = drop 1 (dropWhile (\<lambda>c. c \<noteq> CHR ''='') g)"

text \<open>The place of a flag letter in the order \<open>e\<close>, \<open>i\<close>, \<open>p\<close>.\<close>

definition letter_rank :: "char \<Rightarrow> nat" where
  "letter_rank c = (if c = CHR ''e'' then 0 else if c = CHR ''i'' then 1 else 2)"

text \<open>Only the letters \<open>e\<close>, \<open>i\<close>, \<open>p\<close>, in that order, each at most once.\<close>

definition flags_in_order :: "string \<Rightarrow> bool" where
  "flags_in_order fs =
     (set fs \<subseteq> {CHR ''e'', CHR ''i'', CHR ''p''} \<and>
      sorted_wrt (\<lambda>a b. letter_rank a < letter_rank b) fs)"

text \<open>Every bit set in \<open>s\<close> has a name in the table.\<close>

definition all_named :: "CapabilityNameTable \<Rightarrow> CapabilitySet \<Rightarrow> bool" where
  "all_named T s = (effective s \<union> permitted s \<union> inheritable s \<subseteq> fst ` set T)"

section \<open>Properties of the driver\<close>

subsection \<open>The loop\<close>

lemma loop_stdout: "stdout (snd (loop L args w)) = stdout w"
  by (induction args arbitrary: w)
     (simp_all add: fprintf_stderr_def Let_def split: option.splits prod.splits)

lemma loop_running:
  "cap_d w = Some c \<Longrightarrow> fst (loop L args w) = None"
  by (induction args arbitrary: w c)
     (simp_all add: fprintf_stderr_def Let_def split: option.splits prod.splits)

lemma loop_null:
  "cap_d w = None \<Longrightarrow> args \<noteq> [] \<Longrightarrow> fst (loop L args w) = Some 1"
  by (cases args) simp_all

lemma loop_pids:
  "cap_d w = Some c \<Longrightarrow>
   map pid_arg (queried (snd (loop L args w))) = map pid_arg (queried w) @ map atoi args"
  by (induction args arbitrary: w c)
     (simp_all add: fprintf_stderr_def Let_def split: option.splits prod.splits)

lemma threads_snoc:
  "threads c (qs @ [q]) c' = (threads c qs (buf_in q) \<and> buf_out q = c')"
  by (induction qs arbitrary: c) auto

lemma loop_Cons_Some:
  "cap_d w = Some c \<Longrightarrow> capgetp L (atoi a) c = (r, e, c') \<Longrightarrow>
   loop L (a # args) w =
     loop L args
       (fprintf_stderr (if r \<noteq> 0 then get_failed_msg L (atoi a) e else caps_msg a (cap_to_text L c'))
          (w\<lparr>cap_d := Some c', errno := e,
             queried := queried w @
               [\<lparr>token = a, pid_arg = atoi a, buf_in = c, ret = r, buf_out = c'\<rparr>]\<rparr>))"
  by (simp add: Let_def)

lemma loop_threads:
  "cap_d w = Some c \<Longrightarrow> threads c0 (queried w) c \<Longrightarrow>
   \<exists>c'. cap_d (snd (loop L args w)) = Some c' \<and> threads c0 (queried (snd (loop L args w))) c'"
proof (induction args arbitrary: w c)
  case Nil
  then show ?case by simp
next
  case (Cons a args)
  obtain r e c' where g: "capgetp L (atoi a) c = (r, e, c')"
    by (cases "capgetp L (atoi a) c") auto
  show ?case
    unfolding loop_Cons_Some [OF Cons.prems(1) g]
    by (rule Cons.IH [where c = c']) (use Cons.prems in \<open>simp_all add: fprintf_stderr_def threads_snoc\<close>)
qed

lemma wholesale_report:
  assumes "wholesale L"
  shows "report L c arg = report L d arg"
proof -
  have all: "\<forall>pid c d. case (capgetp L pid c, capgetp L pid d) of
          ((r, e, c'), (s, f, d')) \<Rightarrow> r = s \<and> (if r = 0 then c' = d' else e = f)"
    using assms unfolding wholesale_def .
  have "case (capgetp L (atoi arg) c, capgetp L (atoi arg) d) of
          ((r, e, c'), (s, f, d')) \<Rightarrow> r = s \<and> (if r = 0 then c' = d' else e = f)"
    by (rule all [THEN spec, THEN spec, THEN spec])
  then show ?thesis
    by (auto simp: report_def Let_def split: prod.splits if_splits)
qed

lemma loop_step:
  "cap_d w = Some c \<Longrightarrow>
   \<exists>w'. loop L (a # args) w = loop L args w' \<and> stderr w' = stderr w @ [report L c a] \<and>
        stdout w' = stdout w \<and> (\<exists>c'. cap_d w' = Some c')"
  by (cases "capgetp L (atoi a) c") (auto simp: report_def fprintf_stderr_def Let_def)

lemma loop_stderr_length:
  "cap_d w = Some c \<Longrightarrow> length (stderr (snd (loop L args w))) = length (stderr w) + length args"
proof (induction args arbitrary: w c)
  case Nil
  then show ?case by simp
next
  case (Cons a args)
  from loop_step [OF Cons.prems, of L a args] obtain w' c'
    where w': "loop L (a # args) w = loop L args w'" "stderr w' = stderr w @ [report L c a]"
      "cap_d w' = Some c'"
    by blast
  show ?case using Cons.IH [OF w'(3)] w'(1,2) by simp
qed

lemma loop_stderr:
  "wholesale L \<Longrightarrow> cap_d w = Some c \<Longrightarrow>
   stderr (snd (loop L args w)) = stderr w @ map (report L c0) args"
proof (induction args arbitrary: w c)
  case Nil
  then show ?case by simp
next
  case (Cons a args)
  from loop_step [OF Cons.prems(2), of L a args] obtain w' c'
    where w': "loop L (a # args) w = loop L args w'" "stderr w' = stderr w @ [report L c a]"
      "cap_d w' = Some c'"
    by blast
  have "stderr (snd (loop L args w')) = stderr w' @ map (report L c0) args"
    using Cons.IH [OF Cons.prems(1) w'(3)] .
  then show ?case
    using w' wholesale_report [OF Cons.prems(1), of c a c0] by simp
qed

lemma loop_success_shown:
  "\<forall>q \<in> set (queried w). ret q = 0 \<longrightarrow> caps_msg (token q) (cap_to_text L (buf_out q)) \<in> set (stderr w) \<Longrightarrow>
   \<forall>q \<in> set (queried (snd (loop L args w))). ret q = 0 \<longrightarrow>
      caps_msg (token q) (cap_to_text L (buf_out q)) \<in> set (stderr (snd (loop L args w)))"
proof (induction args arbitrary: w)
  case Nil
  then show ?case by simp
next
  case (Cons a args)
  show ?case
  proof (cases "cap_d w")
    case None
    then show ?thesis using Cons.prems by (simp add: fprintf_stderr_def)
  next
    case (Some c)
    obtain r e c' where g: "capgetp L (atoi a) c = (r, e, c')"
      by (cases "capgetp L (atoi a) c") auto
    show ?thesis
      unfolding loop_Cons_Some [OF Some g]
      by (rule Cons.IH) (use Cons.prems in \<open>auto simp: fprintf_stderr_def\<close>)
  qed
qed


subsection \<open>Whole runs\<close>

lemma main_usage: "length argv < 2 \<Longrightarrow> main L argv = (1, fprintf_stderr usage_text start)"
  by (simp add: main_def usage_def)

lemma main_null: "2 \<le> length argv \<Longrightarrow> cap_init L = Inl e \<Longrightarrow> fst (main L argv) = 1"
proof -
  assume a: "2 \<le> length argv" "cap_init L = Inl e"
  then have "tl argv \<noteq> []" by (cases argv) auto
  then have "fst (loop L (tl argv) (start\<lparr>cap_d := None, errno := e\<rparr>)) = Some 1"
    by (intro loop_null) simp_all
  then show ?thesis using a
    by (cases "loop L (tl argv) (start\<lparr>cap_d := None, errno := e\<rparr>)") (simp add: main_def)
qed

lemma main_run:
  "2 \<le> length argv \<Longrightarrow> cap_init L = Inr c0 \<Longrightarrow>
   main L argv = (0, snd (loop L (tl argv) (start\<lparr>cap_d := Some c0\<rparr>)))"
proof -
  assume a: "2 \<le> length argv" "cap_init L = Inr c0"
  have "fst (loop L (tl argv) (start\<lparr>cap_d := Some c0\<rparr>)) = None"
    by (rule loop_running [where c = c0]) simp
  then show ?thesis using a
    by (cases "loop L (tl argv) (start\<lparr>cap_d := Some c0\<rparr>)") (simp add: main_def)
qed

lemma sample_wholesale: "wholesale sample_libcap"
  by (simp add: wholesale_def sample_libcap_def)

lemmas driver_eval =
  main_def usage_def start_def fprintf_stderr_def sample_libcap_def atoi_def isspace_def
  isdigit_def digit_val_def Let_def caps_msg_def get_failed_msg_def blank_failed_msg_def fmt_d_def

subsection \<open>One failing pid does not stop or disturb the others\<close>

text \<open>
  Claim C6.  A query that fails for one pid neither halts the batch nor changes what is
  reported for any other pid: the driver prints the failure line for that pid and goes on.
  A run over any non-empty list of tokens, with the buffer allocated, exits with status 0,
  queries every token's pid in order and writes exactly one line per token, whatever the
  queries answer.  When what a query answers does not depend on what the buffer held
  before, the line of each token is \<open>report L c0 a\<close>, the line it gets on a fresh
  buffer and in a run over that token alone; so the lines of the tokens around a failing
  one are those they get without it.
\<close>

theorem failure_isolated:
  assumes "cap_init L = Inr c0" and "args \<noteq> []"
  shows "fst (main L (prog # args)) = 0 \<and>
         map pid_arg (queried (snd (main L (prog # args)))) = map atoi args \<and>
         length (stderr (snd (main L (prog # args)))) = length args \<and>
         (wholesale L \<longrightarrow>
            stderr (snd (main L (prog # args))) = map (report L c0) args \<and>
            stderr (snd (main L (prog # args))) =
              concat (map (\<lambda>a. stderr (snd (main L [prog, a]))) args))"
proof -
  have l: "2 \<le> length (prog # args)" using assms(2) by (cases args) auto
  note run = main_run [OF l assms(1)]
  have pids: "map pid_arg (queried (snd (main L (prog # args)))) = map atoi args"
    by (simp add: run loop_pids [where c = c0] start_def)
  have len: "length (stderr (snd (main L (prog # args)))) = length args"
    by (simp add: run loop_stderr_length [where c = c0] start_def)
  have iso: "stderr (snd (main L (prog # args))) = map (report L c0) args \<and>
      stderr (snd (main L (prog # args))) =
        concat (map (\<lambda>a. stderr (snd (main L [prog, a]))) args)"
    if w: "wholesale L"
  proof -
    have one: "stderr (snd (main L [prog, a])) = [report L c0 a]" for a
      using assms(1) loop_stderr [OF w, of "start\<lparr>cap_d := Some c0\<rparr>" c0 "[a]" c0]
      by (simp add: main_run start_def)
    have all: "stderr (snd (main L (prog # args))) = map (report L c0) args"
      using loop_stderr [OF w, of "start\<lparr>cap_d := Some c0\<rparr>" c0 args c0]
      by (simp add: run start_def)
    have "concat (map (\<lambda>a. stderr (snd (main L [prog, a]))) args) = map (report L c0) args"
      by (induction args) (simp_all add: one)
    with all show ?thesis by simp
  qed
  have "fst (main L (prog # args)) = 0" by (simp add: run)
  with pids len iso show ?thesis by blast
qed

theorem failure_isolated_witness:
  "wholesale sample_libcap \<and> cap_init sample_libcap = Inr ''='' \<and>
   fst (main sample_libcap [''getpcaps'', ''1'', ''2'', ''3'']) = 0 \<and>
   stderr (snd (main sample_libcap [''getpcaps'', ''1'', ''2'', ''3''])) =
     [''Capabilities for `1': = cap_chown+ep\<newline>'',
      ''Failed to get cap's for proccess 2: (No such process)\<newline>'',
      ''Capabilities for `3': = cap_kill+i\<newline>'']"
proof -
  have c: "cap_init sample_libcap = Inr ''=''" by (simp add: sample_libcap_def)
  have r: "map (report sample_libcap ''='') [''1'', ''2'', ''3''] =
     [''Capabilities for `1': = cap_chown+ep\<newline>'',
      ''Failed to get cap's for proccess 2: (No such process)\<newline>'',
      ''Capabilities for `3': = cap_kill+i\<newline>'']"
    by (simp add: report_def driver_eval dec.simps digit_char_def)
  show ?thesis
    using failure_isolated [OF c, of "[''1'', ''2'', ''3'']" "''getpcaps''"] c r sample_wholesale
    by simp
qed

subsection \<open>The pid is passed on unchecked\<close>

text \<open>
  The driver has no test on the pid: a run over the tokens \<open>0\<close> and \<open>-5\<close> calls
  \<^verbatim>\<open>capgetp\<close> with the pids 0 and -5.
\<close>

theorem pid_unchecked_counterexample:
  "map pid_arg (queried (snd (main sample_libcap [''getpcaps'', ''0'', ''-5'']))) = [0, - 5]"
  by (simp add: driver_eval)

text \<open>
  Claim C7, as the program has it.  Every token is converted by \<^verbatim>\<open>atoi\<close> and the
  integer it gives, positive, zero or negative alike, is passed to the kernel query: when
  there is an argument and the buffer was allocated, the pids passed to
  \<^verbatim>\<open>capgetp\<close> are, in order, the \<^verbatim>\<open>atoi\<close> values of the arguments.
\<close>

theorem every_pid_queried:
  "2 \<le> length argv \<Longrightarrow> cap_init L = Inr c0 \<Longrightarrow>
   map pid_arg (queried (snd (main L argv))) = map atoi (tl argv)"
  by (simp add: main_run loop_pids [where c = c0] start_def)

theorem every_pid_queried_witness:
  "map pid_arg (queried (snd (main sample_libcap [''getpcaps'', ''1'', ''0'', ''-7'', ''x''])))
     = [1, 0, - 7, 0]"
  using every_pid_queried [of "[''getpcaps'', ''1'', ''0'', ''-7'', ''x'']" sample_libcap "''=''"]
  by (simp add: sample_libcap_def atoi_def isspace_def isdigit_def digit_val_def)

subsection \<open>One buffer for all pids\<close>

text \<open>
  The buffer is allocated once, before the loop.  In a run over the pids 1 and 3 the query
  for pid 3 is handed the buffer that holds the capabilities read for pid 1.
\<close>

theorem buffer_reused_counterexample:
  "cap_init sample_libcap = Inr ''='' \<and>
   map buf_in (queried (snd (main sample_libcap [''getpcaps'', ''1'', ''3''])))
     = [''='', ''= cap_chown+ep'']"
  by (simp add: driver_eval)

text \<open>
  Claim C8, as the program has it.  All pids share the one buffer that \<^verbatim>\<open>cap_init\<close>
  returned: the first query is handed that buffer and every later query is handed the
  buffer as the query before it left it.  The line printed for a pid is nevertheless the
  same whatever pids were processed before it, as long as the query's answer does not
  depend on what the buffer held before.
\<close>

theorem buffer_shared:
  assumes "cap_init L = Inr c0"
  shows "(\<exists>c. cap_d (snd (main L (prog # before @ [a]))) = Some c \<and>
              threads c0 (queried (snd (main L (prog # before @ [a])))) c) \<and>
         (wholesale L \<longrightarrow>
            last (stderr (snd (main L (prog # before @ [a])))) =
            last (stderr (snd (main L (prog # others @ [a])))))"
proof -
  have l: "2 \<le> length (prog # xs @ [a])" for xs by simp
  have "\<exists>c. cap_d (snd (loop L (before @ [a]) (start\<lparr>cap_d := Some c0\<rparr>))) = Some c \<and>
            threads c0 (queried (snd (loop L (before @ [a]) (start\<lparr>cap_d := Some c0\<rparr>)))) c"
    by (rule loop_threads [where c = c0]) (simp_all add: start_def)
  then have sharing: "\<exists>c. cap_d (snd (main L (prog # before @ [a]))) = Some c \<and>
              threads c0 (queried (snd (main L (prog # before @ [a])))) c"
    by (simp add: main_run [OF l assms])
  have "last (stderr (snd (main L (prog # xs @ [a])))) = report L c0 a" if "wholesale L" for xs
    using loop_stderr [OF that, of "start\<lparr>cap_d := Some c0\<rparr>" c0 "xs @ [a]" c0]
    by (simp add: main_run [OF l assms] start_def)
  then show ?thesis using sharing by simp
qed

theorem buffer_shared_witness:
  "cap_init sample_libcap = Inr ''='' \<and> wholesale sample_libcap \<and>
   cap_d (snd (main sample_libcap [''getpcaps'', ''1'', ''2'', ''3''])) = Some ''= cap_kill+i'' \<and>
   threads ''='' (queried (snd (main sample_libcap [''getpcaps'', ''1'', ''2'', ''3''])))
     ''= cap_kill+i'' \<and>
   last (stderr (snd (main sample_libcap [''getpcaps'', ''1'', ''2'', ''3'']))) =
   last (stderr (snd (main sample_libcap [''getpcaps'', ''3''])))"
proof -
  have c: "cap_init sample_libcap = Inr ''=''" by (simp add: sample_libcap_def)
  have d: "cap_d (snd (main sample_libcap [''getpcaps'', ''1'', ''2'', ''3''])) = Some ''= cap_kill+i''"
    by (simp add: driver_eval)
  show ?thesis
    using buffer_shared [OF c, of "''getpcaps''" "[''1'', ''2'']" "''3''" "[]"] c d sample_wholesale
    by auto
qed

subsection \<open>Exit status\<close>

text \<open>
  Claim C9.  The exit status is 1 when no pid argument is given or the initial allocation
  fails, and 0 in every other case, whatever the queries answer.
\<close>

theorem exit_status:
  "fst (main L argv) = (if length argv < 2 \<or> isl (cap_init L) then 1 else 0)"
proof (cases "length argv < 2")
  case True
  then show ?thesis by (simp add: main_usage)
next
  case False
  then have l: "2 \<le> length argv" by simp
  show ?thesis
  proof (cases "cap_init L")
    case (Inl e)
    then show ?thesis using l main_null [OF l Inl] by simp
  next
    case (Inr c0)
    then show ?thesis using l main_run [OF l Inr] by simp
  qed
qed

theorem exit_status_witness:
  "map ret (queried (snd (main sample_libcap [''getpcaps'', ''2'', ''7'']))) = [- 1, - 1] \<and>
   fst (main sample_libcap [''getpcaps'', ''2'', ''7'']) = 0 \<and>
   fst (main sample_libcap [''getpcaps'']) = 1 \<and>
   fst (main (sample_libcap\<lparr>cap_init := Inl 12\<rparr>) [''getpcaps'', ''1'']) = 1"
  using exit_status [of sample_libcap "[''getpcaps'', ''2'', ''7'']"]
    exit_status [of sample_libcap "[''getpcaps'']"]
    exit_status [of "sample_libcap\<lparr>cap_init := Inl 12\<rparr>" "[''getpcaps'', ''1'']"]
  by (simp add: driver_eval)

subsection \<open>Results go to the standard error stream\<close>

text \<open>
  Claim C10.  Nothing is ever written to standard output, and for every call of
  \<^verbatim>\<open>capgetp\<close> that returned 0 the line with the rendered text of the buffer is among
  those written to standard error.
\<close>

theorem results_on_stderr:
  "stdout (snd (main L argv)) = [] \<and>
   (\<forall>q \<in> set (queried (snd (main L argv))).
      ret q = 0 \<longrightarrow> caps_msg (token q) (cap_to_text L (buf_out q)) \<in> set (stderr (snd (main L argv))))"
proof (cases "length argv < 2")
  case True
  then show ?thesis by (simp add: main_usage start_def fprintf_stderr_def)
next
  case False
  define w0 where "w0 = (case cap_init L of Inl e \<Rightarrow> start\<lparr>cap_d := None, errno := e\<rparr>
                          | Inr c \<Rightarrow> (start :: 'a world)\<lparr>cap_d := Some c\<rparr>)"
  have q0: "queried w0 = []" and o0: "stdout w0 = []"
    by (simp_all add: w0_def start_def split: sum.splits)
  have m: "snd (main L argv) = snd (loop L (tl argv) w0)"
    using False by (simp add: main_def w0_def split: prod.splits option.splits)
  have "\<forall>q \<in> set (queried w0). ret q = 0 \<longrightarrow>
          caps_msg (token q) (cap_to_text L (buf_out q)) \<in> set (stderr w0)"
    using q0 by simp
  from loop_success_shown [OF this, of "tl argv"] show ?thesis
    unfolding m by (simp add: loop_stdout o0)
qed

theorem results_on_stderr_witness:
  "ret (queried (snd (main sample_libcap [''getpcaps'', ''1'', ''2'', ''3''])) ! 2) = 0 \<and>
   stdout (snd (main sample_libcap [''getpcaps'', ''1'', ''2'', ''3''])) = [] \<and>
   ''Capabilities for `3': = cap_kill+i\<newline>''
     \<in> set (stderr (snd (main sample_libcap [''getpcaps'', ''1'', ''2'', ''3''])))"
  using results_on_stderr [of sample_libcap "[''getpcaps'', ''1'', ''2'', ''3'']"]
  by (simp add: driver_eval)
section \<open>Properties of the capability set and its text form\<close>

lemma signature_empty: "signature empty_caps idx = []"
  by (simp add: signature_def empty_caps_def flag_order_def)

lemma entries_empty: "entries M T empty_caps = []"
  by (simp add: entries_def signature_empty List.map_filter_def)

lemma join_with_Cons: "join_with c (w # ws) = (if ws = [] then w else w @ c # join_with c ws)"
  by (cases ws) simp_all

lemma render_group_nonempty: "render_group g \<noteq> []"
  by (simp add: render_group_def)

subsection \<open>The empty set\<close>

text \<open>
  Claim C2.  Encoding the set in which no bit is set in any vector gives exactly the token
  \<open>=\<close>, for every bound and every table; and no set at all is encoded as the empty
  string.
\<close>

theorem encode_empty: "encode M T empty_caps = ''='' \<and> encode M T s \<noteq> ''''"
proof -
  have "groups M T empty_caps = []"
    by (simp add: groups_def entries_empty)
  then have a: "encode M T empty_caps = ''=''"
    by (simp add: encode_def)
  have "encode M T s \<noteq> []"
  proof (cases "groups M T s")
    case Nil
    then show ?thesis by (simp add: encode_def)
  next
    case (Cons g gs)
    then show ?thesis
      by (simp add: encode_def join_with_Cons render_group_nonempty)
  qed
  with a show ?thesis by simp
qed

subsection \<open>Range enforcement\<close>

lemma vec_vec_update:
  "vec w (vec_update w' f s) = (if w = w' then f (vec w s) else vec w s)"
  by (cases w; cases w') simp_all

lemma in_range_vec: "in_range M s = (\<forall>w. vec w s \<subseteq> {..<M})"
proof
  assume "in_range M s"
  then show "\<forall>w. vec w s \<subseteq> {..<M}"
    unfolding in_range_def by (intro allI, case_tac w) auto
next
  assume a: "\<forall>w. vec w s \<subseteq> {..<M}"
  from a [rule_format, of Effective] a [rule_format, of Permitted] a [rule_format, of Inheritable]
  show "in_range M s" by (simp add: in_range_def)
qed

text \<open>
  Claim C5.  For every index \<open>idx >= MAX_CAP\<close> and every selector, \<open>isSet\<close>,
  \<open>set\<close> and \<open>clear\<close> fail with \<open>IndexOutOfRange\<close>, and \<open>set\<close> and
  \<open>clear\<close> give the set back unchanged.  With that, a set whose bits all lie below
  \<open>MAX_CAP\<close> stays so under \<open>set\<close> and \<open>clear\<close> at any index.
\<close>

theorem range_enforced:
  "(M \<le> idx \<longrightarrow>
      isSet M s which idx = Inl IndexOutOfRange \<and>
      set_cap M which idx s = (Inl IndexOutOfRange, s) \<and>
      clear M which idx s = (Inl IndexOutOfRange, s)) \<and>
   (in_range M s \<longrightarrow>
      in_range M (snd (set_cap M which idx s)) \<and> in_range M (snd (clear M which idx s)))"
proof -
  have "in_range M (snd (set_cap M which idx s))" if "in_range M s"
    using that by (auto simp: in_range_vec set_cap_def vec_vec_update)
  moreover have "in_range M (snd (clear M which idx s))" if "in_range M s"
    using that by (auto simp: in_range_vec clear_def vec_vec_update)
  ultimately show ?thesis
    by (simp add: isSet_def set_cap_def clear_def)
qed

theorem range_enforced_witness:
  "isSet 4 \<lparr>effective = {0}, permitted = {0, 3}, inheritable = {}\<rparr> Permitted 4 = Inl IndexOutOfRange \<and>
   set_cap 4 Effective 7 \<lparr>effective = {0}, permitted = {0, 3}, inheritable = {}\<rparr> =
     (Inl IndexOutOfRange, \<lparr>effective = {0}, permitted = {0, 3}, inheritable = {}\<rparr>) \<and>
   clear 4 Permitted 4 \<lparr>effective = {0}, permitted = {0, 3}, inheritable = {}\<rparr> =
     (Inl IndexOutOfRange, \<lparr>effective = {0}, permitted = {0, 3}, inheritable = {}\<rparr>) \<and>
   in_range 4 \<lparr>effective = {0}, permitted = {0, 3}, inheritable = {}\<rparr> \<and>
   in_range 4 (snd (set_cap 4 Inheritable 2 \<lparr>effective = {0}, permitted = {0, 3}, inheritable = {}\<rparr>))"
proof -
  let ?s = "\<lparr>effective = {0}, permitted = {0, 3}, inheritable = {}\<rparr>"
  have r: "in_range 4 ?s" by (simp add: in_range_def)
  show ?thesis
    using r range_enforced [of 4 4 ?s Permitted] range_enforced [of 4 7 ?s Effective]
      range_enforced [of 4 2 ?s Inheritable]
    by simp
qed

subsection \<open>Splitting and joining\<close>

lemma split_acc_nosep: "c \<notin> set u \<Longrightarrow> split_acc c w (u @ xs) = split_acc c (w @ u) xs"
  by (induction u arbitrary: w) auto

lemma split_on_nosep: "c \<notin> set w \<Longrightarrow> split_on c w = [w]"
  using split_acc_nosep [of c w "[]" "[]"] by (simp add: split_on_def)

lemma split_on_sep: "c \<notin> set w \<Longrightarrow> split_on c (w @ c # xs) = w # split_on c xs"
  using split_acc_nosep [of c w "[]" "c # xs"] by (simp add: split_on_def)

lemma split_join:
  "ws \<noteq> [] \<Longrightarrow> \<forall>w \<in> set ws. c \<notin> set w \<Longrightarrow> split_on c (join_with c ws) = ws"
proof (induction ws)
  case Nil
  then show ?case by simp
next
  case (Cons w ws)
  show ?case
  proof (cases "ws = []")
    case True
    then show ?thesis using Cons.prems by (simp add: split_on_nosep)
  next
    case False
    then have "split_on c (join_with c ws) = ws" using Cons by simp
    then show ?thesis using False Cons.prems by (simp add: join_with_Cons split_on_sep)
  qed
qed

lemma set_join_with: "set (join_with c ws) \<subseteq> insert c (\<Union> (set ` set ws))"
  by (induction c ws rule: join_with.induct) auto

lemma partition_by_keys: "fst ` set (partition_by f xs) = f ` set xs"
  by (induction f xs rule: partition_by.induct) auto

lemma partition_by_distinct: "distinct (map fst (partition_by f xs))"
proof (induction f xs rule: partition_by.induct)
  case (1 f)
  then show ?case by simp
next
  case (2 f x xs)
  have "f x \<notin> fst ` set (partition_by f (filter (\<lambda>y. f y \<noteq> f x) xs))"
    by (auto simp: partition_by_keys)
  with 2 show ?case by simp
qed

lemma partition_by_members:
  "(k, ys) \<in> set (partition_by f xs) \<Longrightarrow> ys = filter (\<lambda>x. f x = k) xs \<and> ys \<noteq> []"
proof (induction f xs rule: partition_by.induct)
  case (1 f)
  then show ?case by simp
next
  case (2 f x xs)
  show ?case
  proof (cases "k = f x")
    case True
    have "(k, ys) \<notin> set (partition_by f (filter (\<lambda>y. f y \<noteq> f x) xs))"
    proof
      assume "(k, ys) \<in> set (partition_by f (filter (\<lambda>y. f y \<noteq> f x) xs))"
      then have "k \<in> fst ` set (partition_by f (filter (\<lambda>y. f y \<noteq> f x) xs))" by force
      then show False using True by (auto simp: partition_by_keys)
    qed
    then show ?thesis using "2.prems" True by auto
  next
    case False
    then have "(k, ys) \<in> set (partition_by f (filter (\<lambda>y. f y \<noteq> f x) xs))"
      using "2.prems" by auto
    from "2.IH" [OF this]
    have ys: "ys = filter (\<lambda>x. f x = k) (filter (\<lambda>y. f y \<noteq> f x) xs)" "ys \<noteq> []"
      by blast+
    have "filter (\<lambda>x. f x = k) (filter (\<lambda>y. f y \<noteq> f x) xs) = filter (\<lambda>x. f x = k) xs"
      using False by (auto intro: filter_cong)
    then show ?thesis using ys False by auto
  qed
qed

lemma map_filter_fst:
  "map fst (List.map_filter (\<lambda>i. if P i then None else map_option (Pair i) (m i)) xs) =
   filter (\<lambda>i. \<not> P i \<and> m i \<noteq> None) xs"
  by (induction xs) (auto split: option.splits)

lemma map_filter_mem:
  "(i, n) \<in> set (List.map_filter (\<lambda>i. if P i then None else map_option (Pair i) (m i)) xs) \<longleftrightarrow>
   i \<in> set xs \<and> \<not> P i \<and> m i = Some n"
  by (induction xs) (auto split: option.splits)

lemma fst_entries:
  "map fst (entries M T s) = filter (\<lambda>i. signature s i \<noteq> [] \<and> map_of T i \<noteq> None) [0..<M]"
  unfolding entries_def by (rule map_filter_fst)

lemma entries_mem:
  "(i, n) \<in> set (entries M T s) \<longleftrightarrow> i < M \<and> signature s i \<noteq> [] \<and> map_of T i = Some n"
  unfolding entries_def by (simp add: map_filter_mem)

lemma entries_in_table: "set (entries M T s) \<subseteq> set T"
  by (auto simp: entries_mem dest: map_of_SomeD)

lemma in_signature: "which \<in> set (signature s idx) \<longleftrightarrow> idx \<in> vec which s"
  by (cases which) (auto simp: signature_def flag_order_def)

subsection \<open>The groups of an encoding\<close>

lemma valid_table_entry:
  "valid_table M T \<Longrightarrow> (i, n) \<in> set T \<Longrightarrow> i < M \<and> is_token n"
  by (auto simp: valid_table_def list_all_iff)

lemma token_chars:
  "is_token n \<Longrightarrow> n \<noteq> [] \<and> CHR '' '' \<notin> set n \<and> CHR '','' \<notin> set n \<and> CHR ''='' \<notin> set n"
  by (auto simp: is_token_def list_all_iff)

lemma group_key:
  assumes "(sg, es) \<in> set (groups M T s)"
  shows "\<exists>i n. (i, n) \<in> set (entries M T s) \<and> sg = signature s i"
proof -
  have "sg \<in> fst ` set (groups M T s)" using assms by force
  then show ?thesis by (auto simp: groups_def partition_by_keys)
qed

lemma group_signature_nonempty: "(sg, es) \<in> set (groups M T s) \<Longrightarrow> sg \<noteq> []"
  using group_key [of sg es M T s] by (auto simp: entries_mem)

lemma group_members:
  "(sg, es) \<in> set (groups M T s) \<Longrightarrow>
   es = filter (\<lambda>(i, n). signature s i = sg) (entries M T s) \<and> es \<noteq> []"
proof -
  assume "(sg, es) \<in> set (groups M T s)"
  then have "(sg, es) \<in> set (partition_by (\<lambda>(idx, n). signature s idx) (entries M T s))"
    by (simp add: groups_def)
  from partition_by_members [OF this]
  have "es = filter (\<lambda>x. (case x of (idx, n) \<Rightarrow> signature s idx) = sg) (entries M T s)"
    and ne: "es \<noteq> []"
    by blast+
  then have "es = filter (\<lambda>(i, n). signature s i = sg) (entries M T s)"
    by (simp add: case_prod_unfold)
  with ne show ?thesis by blast
qed

lemma group_in_table: "(sg, es) \<in> set (groups M T s) \<Longrightarrow> set es \<subseteq> set T"
  using group_members [of sg es M T s] entries_in_table [of M T s] by auto

lemma group_indices:
  assumes "(sg, es) \<in> set (groups M T s)"
  shows "map fst es = filter (\<lambda>i. signature s i = sg \<and> map_of T i \<noteq> None) [0..<M]"
proof -
  have ne: "sg \<noteq> []" using assms by (rule group_signature_nonempty)
  have "map fst es = filter (\<lambda>i. signature s i = sg) (map fst (entries M T s))"
    using group_members [OF assms] by (simp add: filter_map comp_def case_prod_unfold)
  also have "\<dots> = filter (\<lambda>i. signature s i = sg \<and> map_of T i \<noteq> None) [0..<M]"
    unfolding fst_entries using ne by (auto intro: filter_cong)
  finally show ?thesis .
qed

lemma flag_letters_no_sep:
  shows "CHR '' '' \<notin> flag_letter ` A"
    and "CHR '','' \<notin> flag_letter ` A"
    and "CHR ''='' \<notin> flag_letter ` A"
proof -
  have "flag_letter w \<noteq> CHR '' '' \<and> flag_letter w \<noteq> CHR '','' \<and> flag_letter w \<noteq> CHR ''=''" for w
    by (cases w) simp_all
  then show "CHR '' '' \<notin> flag_letter ` A" and "CHR '','' \<notin> flag_letter ` A"
    and "CHR ''='' \<notin> flag_letter ` A"
    by (metis imageE)+
qed

lemma names_joined:
  assumes "valid_table M T" and "set es \<subseteq> set T"
  shows "CHR '' '' \<notin> set (join_with (CHR '','') (map snd es))"
    and "CHR ''='' \<notin> set (join_with (CHR '','') (map snd es))"
    and "\<forall>n \<in> set (map snd es). CHR '','' \<notin> set n"
proof -
  have tok: "is_token n" if "n \<in> snd ` set es" for n
    using that assms valid_table_entry [OF assms(1)] by force
  then have "\<forall>n \<in> snd ` set es. CHR '' '' \<notin> set n \<and> CHR ''='' \<notin> set n \<and> CHR '','' \<notin> set n"
    using token_chars by blast
  moreover have "set (join_with (CHR '','') (map snd es)) \<subseteq>
      insert (CHR '','') (\<Union> (set ` set (map snd es)))"
    by (rule set_join_with)
  ultimately show "CHR '' '' \<notin> set (join_with (CHR '','') (map snd es))"
    and "CHR ''='' \<notin> set (join_with (CHR '','') (map snd es))"
    and "\<forall>n \<in> set (map snd es). CHR '','' \<notin> set n"
    by auto
qed

lemma render_no_space:
  assumes "valid_table M T" and "g \<in> set (groups M T s)"
  shows "CHR '' '' \<notin> set (render_group g)"
proof -
  obtain sg es where g: "g = (sg, es)" by (cases g)
  have "set es \<subseteq> set T" using assms(2) g group_in_table by blast
  from names_joined(1) [OF assms(1) this] show ?thesis
    using flag_letters_no_sep(1) [of "set sg"] by (simp add: g render_group_def)
qed

lemma split_encode:
  assumes "valid_table M T" and "groups M T s \<noteq> []"
  shows "split_on (CHR '' '') (encode M T s) = map render_group (groups M T s)"
proof -
  have "\<forall>w \<in> set (map render_group (groups M T s)). CHR '' '' \<notin> set w"
    using render_no_space [OF assms(1)] by auto
  then show ?thesis
    using assms(2) by (simp add: encode_def split_join)
qed

lemma flag_suffix_render:
  assumes "CHR ''='' \<notin> set (join_with (CHR '','') (map snd es))"
  shows "flag_suffix (render_group (sg, es)) = map flag_letter sg"
proof -
  have "dropWhile (\<lambda>c. c \<noteq> CHR ''='') (render_group (sg, es)) = CHR ''='' # map flag_letter sg"
    unfolding render_group_def using assms by (subst dropWhile_append2) auto
  then show ?thesis by (simp add: flag_suffix_def)
qed

lemma flags_in_order_signature: "flags_in_order (map flag_letter (signature s i))"
  by (simp add: flags_in_order_def signature_def flag_order_def letter_rank_def)


lemma sample_table_valid: "valid_table 4 sample_table"
  by (simp add: valid_table_def sample_table_def is_token_def)


lemma group_sorted:
  assumes "(sg, es) \<in> set (groups M T s)"
  shows "sorted_wrt (<) (map fst es)"
  unfolding group_indices [OF assms] by (rule sorted_wrt_filter) simp

lemma group_names:
  assumes "(sg, es) \<in> set (groups M T s)" and "(i, n) \<in> set es"
  shows "nameOf T i = Inr n"
proof -
  have "(i, n) \<in> set (entries M T s)" using group_members [OF assms(1)] assms(2) by auto
  then show ?thesis by (simp add: entries_mem nameOf_def)
qed

lemma group_cover:
  assumes "i < M" and "signature s i \<noteq> []" and "map_of T i = Some n"
  shows "\<exists>es. (signature s i, es) \<in> set (groups M T s) \<and> (i, n) \<in> set es"
proof -
  have e: "(i, n) \<in> set (entries M T s)" using assms by (simp add: entries_mem)
  then have "signature s i \<in> fst ` set (groups M T s)"
    unfolding groups_def partition_by_keys by force
  then obtain es where g: "(signature s i, es) \<in> set (groups M T s)" by force
  from group_members [OF g] e have "(i, n) \<in> set es" by simp
  with g show ?thesis by blast
qed

lemma names_of_render:
  assumes "valid_table M T" and "(sg, es) \<in> set (groups M T s)"
  shows "split_on (CHR '','') (takeWhile (\<lambda>c. c \<noteq> CHR ''='') (render_group (sg, es))) = map snd es"
proof -
  have sub: "set es \<subseteq> set T" using assms(2) by (rule group_in_table)
  have ne: "map snd es \<noteq> []" using group_members [OF assms(2), THEN conjunct2] by simp
  have "takeWhile (\<lambda>c. c \<noteq> CHR ''='') (render_group (sg, es)) =
        join_with (CHR '','') (map snd es)"
    unfolding render_group_def using names_joined(2) [OF assms(1) sub]
    by (subst takeWhile_append2) auto
  then show ?thesis
    using split_join [OF ne names_joined(3) [OF assms(1) sub]] by simp
qed


subsection \<open>Flag order\<close>

text \<open>
  Claim C3.  For every capability set, in every group of the encoded text the flag suffix
  after \<open>=\<close> holds only the letters \<open>e\<close>, \<open>i\<close>, \<open>p\<close>, each at most
  once and in that order.  The groups are the pieces of the text between spaces; the table
  is any valid one.
\<close>

theorem flag_order_invariant:
  assumes "valid_table M T"
  shows "\<forall>g \<in> set (split_on (CHR '' '') (encode M T s)). flags_in_order (flag_suffix g)"
proof (cases "groups M T s = []")
  case True
  then show ?thesis by (simp add: encode_def flag_suffix_def flags_in_order_def split_on_def)
next
  case False
  have "flags_in_order (flag_suffix (render_group g))" if "g \<in> set (groups M T s)" for g
  proof -
    obtain sg es where g: "g = (sg, es)" by (cases g)
    have "set es \<subseteq> set T" using that g group_in_table by blast
    from names_joined(2) [OF assms this]
    have "flag_suffix (render_group g) = map flag_letter sg"
      unfolding g by (rule flag_suffix_render)
    moreover from group_key [OF that [unfolded g]] obtain i where "sg = signature s i"
      by blast
    ultimately show ?thesis by (simp add: flags_in_order_signature)
  qed
  then show ?thesis by (simp add: split_encode [OF assms False])
qed

theorem flag_order_invariant_witness:
  "valid_table 4 sample_table \<and>
   split_on (CHR '' '')
     (encode 4 sample_table \<lparr>effective = {0, 1}, permitted = {0, 1, 3}, inheritable = {2, 3}\<rparr>) =
     [''chown,dac_override=ep'', ''fowner=ip''] \<and>
   flags_in_order (flag_suffix ''chown,dac_override=ep'') \<and>
   flags_in_order (flag_suffix ''fowner=ip'')"
proof -
  let ?s = "\<lparr>effective = {0, 1}, permitted = {0, 1, 3}, inheritable = {2, 3}\<rparr>"
  have e: "split_on (CHR '' '') (encode 4 sample_table ?s) =
     [''chown,dac_override=ep'', ''fowner=ip'']"
    by code_simp
  have "\<forall>g \<in> set [''chown,dac_override=ep'', ''fowner=ip'']. flags_in_order (flag_suffix g)"
    using flag_order_invariant [OF sample_table_valid, of ?s] unfolding e .
  then show ?thesis
    using sample_table_valid e by simp
qed


subsection \<open>Grouping\<close>

text \<open>
  Claim C4.  For every capability set, the encoder coalesces the capabilities that share
  a signature into one comma-joined group: the groups of the text are separated by single
  spaces, no two groups have the same signature, a group holds exactly the named
  capabilities below \<open>MAX_CAP\<close> with its signature, in ascending index order and
  under their names, followed by \<open>=\<close> and the letters of the signature; a capability
  with no flag set has the empty signature and is in no group, and every named capability
  with a flag set is in the group of its signature.
\<close>

theorem grouping:
  assumes "valid_table M T"
  shows "(groups M T s \<noteq> [] \<longrightarrow>
            split_on (CHR '' '') (encode M T s) = map render_group (groups M T s)) \<and>
         distinct (map fst (groups M T s)) \<and>
         (\<forall>(sg, es) \<in> set (groups M T s).
            sg \<noteq> [] \<and>
            map fst es = filter (\<lambda>i. signature s i = sg \<and> map_of T i \<noteq> None) [0..<M] \<and>
            sorted_wrt (<) (map fst es) \<and>
            split_on (CHR '','') (takeWhile (\<lambda>c. c \<noteq> CHR ''='') (render_group (sg, es))) = map snd es \<and>
            flag_suffix (render_group (sg, es)) = map flag_letter sg \<and>
            (\<forall>(i, n) \<in> set es. nameOf T i = Inr n \<and> signature s i = sg)) \<and>
         (\<forall>i < M. signature s i \<noteq> [] \<and> map_of T i \<noteq> None \<longrightarrow>
            (\<exists>es. (signature s i, es) \<in> set (groups M T s) \<and> i \<in> fst ` set es))"
proof -
  have a: "groups M T s \<noteq> [] \<longrightarrow>
            split_on (CHR '' '') (encode M T s) = map render_group (groups M T s)"
    using split_encode [OF assms] by blast
  have b: "distinct (map fst (groups M T s))"
    unfolding groups_def by (rule partition_by_distinct)
  have c: "sg \<noteq> [] \<and>
        map fst es = filter (\<lambda>i. signature s i = sg \<and> map_of T i \<noteq> None) [0..<M] \<and>
        sorted_wrt (<) (map fst es) \<and>
        split_on (CHR '','') (takeWhile (\<lambda>c. c \<noteq> CHR ''='') (render_group (sg, es))) = map snd es \<and>
        flag_suffix (render_group (sg, es)) = map flag_letter sg \<and>
        (\<forall>(i, n) \<in> set es. nameOf T i = Inr n \<and> signature s i = sg)"
    if g: "(sg, es) \<in> set (groups M T s)" for sg es
  proof -
    have sub: "set es \<subseteq> set T" using g by (rule group_in_table)
    have "\<forall>(i, n) \<in> set es. nameOf T i = Inr n \<and> signature s i = sg"
      using group_names [OF g] group_members [OF g] by auto
    then show ?thesis
      using group_signature_nonempty [OF g] group_indices [OF g] group_sorted [OF g]
        names_of_render [OF assms g] flag_suffix_render [OF names_joined(2) [OF assms sub], of sg]
      by blast
  qed
  have d: "\<exists>es. (signature s i, es) \<in> set (groups M T s) \<and> i \<in> fst ` set es"
    if "i < M" and "signature s i \<noteq> []" and "map_of T i \<noteq> None" for i
  proof -
    from that(3) obtain n where "map_of T i = Some n" by auto
    from group_cover [OF that(1,2) this] show ?thesis by force
  qed
  from a b c d show ?thesis by blast
qed

theorem grouping_witness:
  "valid_table 4 sample_table \<and>
   groups 4 sample_table \<lparr>effective = {0, 1}, permitted = {0, 1, 3}, inheritable = {2, 3}\<rparr> =
     [([Effective, Permitted], [(0, ''chown''), (1, ''dac_override'')]),
      ([Inheritable, Permitted], [(3, ''fowner'')])] \<and>
   split_on (CHR '' '')
     (encode 4 sample_table \<lparr>effective = {0, 1}, permitted = {0, 1, 3}, inheritable = {2, 3}\<rparr>) =
     [''chown,dac_override=ep'', ''fowner=ip'']"
proof -
  let ?s = "\<lparr>effective = {0, 1}, permitted = {0, 1, 3}, inheritable = {2, 3}\<rparr>"
  have g: "groups 4 sample_table ?s =
     [([Effective, Permitted], [(0, ''chown''), (1, ''dac_override'')]),
      ([Inheritable, Permitted], [(3, ''fowner'')])]"
    by code_simp
  have r: "map render_group
     [([Effective, Permitted], [(0, ''chown''), (1, ''dac_override'')]),
      ([Inheritable, Permitted], [(3, ''fowner'')])] = [''chown,dac_override=ep'', ''fowner=ip'']"
    by (simp add: render_group_def)
  show ?thesis
    using grouping [OF sample_table_valid, of ?s] sample_table_valid
    unfolding g r by simp
qed

subsection \<open>Decoding an encoding\<close>

lemma caps_eqI: "(\<And>w. vec w a = vec w b) \<Longrightarrow> a = (b :: CapabilitySet)"
proof -
  assume h: "\<And>w. vec w a = vec w b"
  from h [of Effective] h [of Permitted] h [of Inheritable] show "a = b" by simp
qed

lemma set_flags_ok:
  assumes "idx < M"
  shows "\<exists>s'. set_flags M idx ws s = Inr s' \<and>
              (\<forall>w. vec w s' = (if w \<in> set ws then insert idx (vec w s) else vec w s))"
proof (induction ws arbitrary: s)
  case Nil
  then show ?case by simp
next
  case (Cons a ws)
  let ?s1 = "vec_update a (insert idx) s"
  from Cons.IH [of ?s1] obtain s' where
    s': "set_flags M idx ws ?s1 = Inr s'"
        "\<forall>w. vec w s' = (if w \<in> set ws then insert idx (vec w ?s1) else vec w ?s1)"
    by blast
  have "set_flags M idx (a # ws) s = Inr s'"
    using assms s'(1) by (simp add: set_cap_def)
  moreover have "\<forall>w. vec w s' = (if w \<in> set (a # ws) then insert idx (vec w s) else vec w s)"
    using s'(2) by (auto simp: vec_vec_update)
  ultimately show ?case by blast
qed

lemma indexOf_ok:
  assumes "valid_table M T" and "(i, n) \<in> set T"
  shows "indexOf T n = Inr i"
proof -
  have d: "distinct (map fst (map (\<lambda>(i, n). (n, i)) T))"
    using assms(1) by (simp add: valid_table_def comp_def case_prod_unfold)
  have "(n, i) \<in> set (map (\<lambda>(i, n). (n, i)) T)" using assms(2) by force
  from map_of_is_SomeI [OF d this] show ?thesis by (simp add: indexOf_def)
qed

lemma set_names_ok:
  assumes "valid_table M T" and "set es \<subseteq> set T"
  shows "\<exists>s'. set_names M T ws (map snd es) s = Inr s' \<and>
              (\<forall>w. vec w s' = (if w \<in> set ws then fst ` set es \<union> vec w s else vec w s))"
  using assms(2)
proof (induction es arbitrary: s)
  case Nil
  then show ?case by simp
next
  case (Cons e es)
  obtain i n where e: "e = (i, n)" by (cases e)
  have inT: "(i, n) \<in> set T" using Cons.prems e by simp
  have i: "indexOf T n = Inr i" using indexOf_ok [OF assms(1) inT] .
  have lt: "i < M" using valid_table_entry [OF assms(1) inT] by simp
  from set_flags_ok [OF lt, of ws s] obtain s1 where
    s1: "set_flags M i ws s = Inr s1"
        "\<forall>w. vec w s1 = (if w \<in> set ws then insert i (vec w s) else vec w s)"
    by blast
  from Cons.IH [of s1] Cons.prems obtain s' where
    s': "set_names M T ws (map snd es) s1 = Inr s'"
        "\<forall>w. vec w s' = (if w \<in> set ws then fst ` set es \<union> vec w s1 else vec w s1)"
    by auto
  have "set_names M T ws (map snd (e # es)) s = Inr s'"
    using e i s1(1) s'(1) by simp
  moreover have "\<forall>w. vec w s' = (if w \<in> set ws then fst ` set (e # es) \<union> vec w s else vec w s)"
    using s1(2) s'(2) e by auto
  ultimately show ?case by blast
qed

lemma parse_flags_signature:
  "signature s i \<noteq> [] \<Longrightarrow> parse_flags (map flag_letter (signature s i)) = Inr (signature s i)"
  by (simp add: parse_flags_def signature_def flag_order_def Let_def)

lemma split_render:
  assumes "valid_table M T" and "set es \<subseteq> set T"
  shows "split_on (CHR ''='') (render_group (sg, es)) =
         [join_with (CHR '','') (map snd es), map flag_letter sg]"
proof -
  have "CHR ''='' \<notin> set (map flag_letter sg)"
    using flag_letters_no_sep(3) [of "set sg"] by simp
  then have "split_on (CHR ''='') (map flag_letter sg) = [map flag_letter sg]"
    by (rule split_on_nosep)
  then show ?thesis
    using split_on_sep [OF names_joined(2) [OF assms], of "map flag_letter sg"]
    by (simp add: render_group_def)
qed

lemma decode_group_ok:
  assumes "valid_table M T" and "(sg, es) \<in> set (groups M T s)"
  shows "\<exists>st'. decode_group M T (render_group (sg, es)) st = Inr st' \<and>
              (\<forall>w. vec w st' = (if w \<in> set sg then fst ` set es \<union> vec w st else vec w st))"
proof -
  have sub: "set es \<subseteq> set T" using assms(2) by (rule group_in_table)
  have ne: "map snd es \<noteq> []" using group_members [OF assms(2), THEN conjunct2] by simp
  from group_key [OF assms(2)] obtain i n where
    k: "(i, n) \<in> set (entries M T s)" "sg = signature s i"
    by blast
  then have pf: "parse_flags (map flag_letter sg) = Inr sg"
    using parse_flags_signature [of s i] by (simp add: entries_mem)
  have names: "split_on (CHR '','') (join_with (CHR '','') (map snd es)) = map snd es"
    using split_join [OF ne names_joined(3) [OF assms(1) sub]] .
  have "decode_group M T (render_group (sg, es)) st = set_names M T sg (map snd es) st"
    by (simp add: decode_group_def split_render [OF assms(1) sub] pf names)
  then show ?thesis using set_names_ok [OF assms(1) sub, of sg st] by simp
qed

lemma decode_groups_ok:
  assumes "valid_table M T" and "set gs \<subseteq> set (groups M T s)"
  shows "\<exists>st'. decode_groups M T (map render_group gs) st = Inr st' \<and>
              (\<forall>w. vec w st' =
                 vec w st \<union> {i. \<exists>sg es. (sg, es) \<in> set gs \<and> w \<in> set sg \<and> i \<in> fst ` set es})"
  using assms(2)
proof (induction gs arbitrary: st)
  case Nil
  then show ?case by simp
next
  case (Cons g gs)
  obtain sg es where g: "g = (sg, es)" by (cases g)
  have "(sg, es) \<in> set (groups M T s)" using Cons.prems g by simp
  from decode_group_ok [OF assms(1) this, of st] obtain st1 where
    st1: "decode_group M T (render_group (sg, es)) st = Inr st1"
         "\<forall>w. vec w st1 = (if w \<in> set sg then fst ` set es \<union> vec w st else vec w st)"
    by blast
  from Cons.IH [of st1] Cons.prems obtain st' where
    st': "decode_groups M T (map render_group gs) st1 = Inr st'"
         "\<forall>w. vec w st' =
            vec w st1 \<union> {i. \<exists>sg es. (sg, es) \<in> set gs \<and> w \<in> set sg \<and> i \<in> fst ` set es}"
    by auto
  have "decode_groups M T (map render_group (g # gs)) st = Inr st'"
    using st1(1) st'(1) g by simp
  moreover have "\<forall>w. vec w st' =
      vec w st \<union> {i. \<exists>sg es. (sg, es) \<in> set (g # gs) \<and> w \<in> set sg \<and> i \<in> fst ` set es}"
  proof
    fix w
    show "vec w st' =
      vec w st \<union> {i. \<exists>sg es. (sg, es) \<in> set (g # gs) \<and> w \<in> set sg \<and> i \<in> fst ` set es}"
      unfolding st'(2) [rule_format, of w] st1(2) [rule_format, of w] g by auto
  qed
  ultimately show ?case by blast
qed

lemma grouped_bits:
  "{i. \<exists>sg es. (sg, es) \<in> set (groups M T s) \<and> w \<in> set sg \<and> i \<in> fst ` set es} =
   {i \<in> vec w s. i < M \<and> map_of T i \<noteq> None}"
proof (intro set_eqI iffI)
  fix i
  assume "i \<in> {i. \<exists>sg es. (sg, es) \<in> set (groups M T s) \<and> w \<in> set sg \<and> i \<in> fst ` set es}"
  then obtain sg es n where g: "(sg, es) \<in> set (groups M T s)" and w: "w \<in> set sg"
    and i: "(i, n) \<in> set es"
    by auto
  from group_members [OF g] i have "(i, n) \<in> set (entries M T s)" and "signature s i = sg"
    by auto
  then show "i \<in> {i \<in> vec w s. i < M \<and> map_of T i \<noteq> None}"
    using w by (auto simp: entries_mem in_signature [symmetric])
next
  fix i
  assume "i \<in> {i \<in> vec w s. i < M \<and> map_of T i \<noteq> None}"
  then obtain n where i: "i \<in> vec w s" "i < M" "map_of T i = Some n" by auto
  then have w: "w \<in> set (signature s i)" by (simp add: in_signature)
  then have "signature s i \<noteq> []" by auto
  from group_cover [OF i(2) this i(3)] obtain es where
    "(signature s i, es) \<in> set (groups M T s)" "(i, n) \<in> set es"
    by blast
  with w show "i \<in> {i. \<exists>sg es. (sg, es) \<in> set (groups M T s) \<and> w \<in> set sg \<and> i \<in> fst ` set es}"
    by force
qed

lemma render_not_eq_token:
  assumes "g \<in> set (groups M T s)"
  shows "render_group g \<noteq> ''=''"
proof -
  obtain sg es where g: "g = (sg, es)" by (cases g)
  have "sg \<noteq> []" using assms g group_signature_nonempty by blast
  then have "2 \<le> length (render_group g)" by (cases sg) (simp_all add: g render_group_def)
  then show ?thesis by auto
qed

lemma encode_not_eq_token:
  assumes "valid_table M T" and "groups M T s \<noteq> []"
  shows "encode M T s \<noteq> ''=''"
proof
  assume e: "encode M T s = ''=''"
  have "split_on (CHR '' '') (encode M T s) = [''='']" by (simp add: e split_on_def)
  then have "map render_group (groups M T s) = [''='']"
    using split_encode [OF assms] by simp
  then obtain g where "groups M T s = [g]" "render_group g = ''=''" by auto
  then show False using render_not_eq_token [of g M T s] by simp
qed

lemma decode_encode:
  assumes "valid_table M T"
  shows "\<exists>st. decode M T (encode M T s) = Inr st \<and>
              (\<forall>w. vec w st = {i \<in> vec w s. i < M \<and> map_of T i \<noteq> None})"
proof (cases "groups M T s = []")
  case True
  have "\<forall>w. vec w empty_caps = {i \<in> vec w s. i < M \<and> map_of T i \<noteq> None}"
  proof
    fix w
    have "vec w empty_caps = {}" by (cases w) (simp_all add: empty_caps_def)
    then show "vec w empty_caps = {i \<in> vec w s. i < M \<and> map_of T i \<noteq> None}"
      using grouped_bits [of M T s w] True by simp
  qed
  then show ?thesis using True by (simp add: encode_def decode_def)
next
  case False
  from decode_groups_ok [OF assms, of "groups M T s" s empty_caps] obtain st where
    st: "decode_groups M T (map render_group (groups M T s)) empty_caps = Inr st"
        "\<forall>w. vec w st = vec w empty_caps \<union>
           {i. \<exists>sg es. (sg, es) \<in> set (groups M T s) \<and> w \<in> set sg \<and> i \<in> fst ` set es}"
    by auto
  have "decode M T (encode M T s) = Inr st"
    using encode_not_eq_token [OF assms False] split_encode [OF assms False] st(1)
    by (simp add: decode_def)
  moreover have "\<forall>w. vec w st = {i \<in> vec w s. i < M \<and> map_of T i \<noteq> None}"
  proof
    fix w
    have "vec w empty_caps = {}" by (cases w) (simp_all add: empty_caps_def)
    then show "vec w st = {i \<in> vec w s. i < M \<and> map_of T i \<noteq> None}"
      using st(2) [rule_format, of w] grouped_bits [of M T s w] by simp
  qed
  ultimately show ?thesis by blast
qed

lemma all_named_vec: "all_named T s \<Longrightarrow> vec w s \<subseteq> fst ` set T"
  by (cases w) (auto simp: all_named_def)


subsection \<open>Round trip\<close>

text \<open>
  The table may leave bits below \<open>MAX_CAP\<close> without a name, and the encoder skips
  such bits.  With bit 2 unnamed, the set with the effective bits 0 and 2 is encoded as
  \<open>chown=e\<close>, which decodes to the set with the effective bit 0 alone.
\<close>

theorem round_trip_counterexample:
  "encode 4 sample_table \<lparr>effective = {0, 2}, permitted = {}, inheritable = {}\<rparr> = ''chown=e'' \<and>
   decode 4 sample_table (encode 4 sample_table \<lparr>effective = {0, 2}, permitted = {}, inheritable = {}\<rparr>)
     = Inr \<lparr>effective = {0}, permitted = {}, inheritable = {}\<rparr> \<and>
   decode 4 sample_table (encode 4 sample_table \<lparr>effective = {0, 2}, permitted = {}, inheritable = {}\<rparr>)
     \<noteq> Inr \<lparr>effective = {0, 2}, permitted = {}, inheritable = {}\<rparr>"
proof -
  have e: "encode 4 sample_table \<lparr>effective = {0, 2}, permitted = {}, inheritable = {}\<rparr> = ''chown=e''"
    by code_simp
  have d: "decode 4 sample_table ''chown=e'' = Inr \<lparr>effective = {0}, permitted = {}, inheritable = {}\<rparr>"
    by (simp add: decode_def decode_group_def split_on_def parse_flags_def set_cap_def indexOf_def
        sample_table_def flag_order_def empty_caps_def)
  show ?thesis unfolding e d by simp
qed


text \<open>
  Claim C1, as the codec has it.  For every capability set whose set bits all have a name
  in the table (so in particular all lie below \<open>MAX_CAP\<close>), decoding the text that
  encoding produces gives the set back.  This is every set over \<open>[0, MAX_CAP)\<close> when
  the table names every index.
\<close>

theorem round_trip:
  assumes "valid_table M T" and "all_named T s"
  shows "decode M T (encode M T s) = Inr s"
proof -
  from decode_encode [OF assms(1), of s] obtain st where
    st: "decode M T (encode M T s) = Inr st"
        "\<forall>w. vec w st = {i \<in> vec w s. i < M \<and> map_of T i \<noteq> None}"
    by blast
  have "vec w st = vec w s" for w
  proof -
    have "i < M \<and> map_of T i \<noteq> None" if "i \<in> vec w s" for i
    proof -
      from that all_named_vec [OF assms(2), of w] obtain n where n: "(i, n) \<in> set T" by auto
      then have "map_of T i \<noteq> None" by (simp add: map_of_eq_None_iff) force
      then show ?thesis using valid_table_entry [OF assms(1) n] by simp
    qed
    then show ?thesis using st(2) by auto
  qed
  then have "st = s" by (rule caps_eqI)
  with st(1) show ?thesis by simp
qed

theorem round_trip_witness:
  "valid_table 4 sample_table \<and>
   all_named sample_table \<lparr>effective = {0, 1}, permitted = {0, 1, 3}, inheritable = {3}\<rparr> \<and>
   encode 4 sample_table \<lparr>effective = {0, 1}, permitted = {0, 1, 3}, inheritable = {3}\<rparr> =
     ''chown,dac_override=ep fowner=ip'' \<and>
   decode 4 sample_table ''chown,dac_override=ep fowner=ip'' =
     Inr \<lparr>effective = {0, 1}, permitted = {0, 1, 3}, inheritable = {3}\<rparr>"
proof -
  let ?s = "\<lparr>effective = {0, 1}, permitted = {0, 1, 3}, inheritable = {3}\<rparr>"
  have n: "all_named sample_table ?s" by (simp add: all_named_def sample_table_def)
  have e: "encode 4 sample_table ?s = ''chown,dac_override=ep fowner=ip''" by code_simp
  show ?thesis
    using round_trip [OF sample_table_valid n] sample_table_valid n unfolding e by simp
qed

end
